theory Spec2Isabelle
  imports Complex_Main "HOL-Library.Multiset"
begin

section \<open>Tokenizer: \<open>read_file\<close>\<close>

text \<open>
  The source is Python 2 (\<open>sys.maxint\<close>): a line read from a file is a byte string, and
  \<open>str.split()\<close> with no argument splits on runs of the six ASCII whitespace bytes,
  dropping empty pieces.
\<close>

definition newline :: char where
  "newline = CHR 0x0A"

definition is_space :: "char \<Rightarrow> bool" where
  "is_space c = (c = CHR '' '' \<or> c = CHR 0x09 \<or> c = CHR 0x0A
                 \<or> c = CHR 0x0B \<or> c = CHR 0x0C \<or> c = CHR 0x0D)"

text \<open>\<open>split_aux cur s\<close>: \<open>cur\<close> is the word being read, \<open>s\<close> the rest of the line.\<close>

fun split_aux :: "string \<Rightarrow> string \<Rightarrow> string list" where
  "split_aux cur [] = (if cur = [] then [] else [cur])"
| "split_aux cur (c # cs) =
     (if is_space c then (if cur = [] then [] else [cur]) @ split_aux [] cs
      else split_aux (cur @ [c]) cs)"

definition split :: "string \<Rightarrow> string list" where
  "split s = split_aux [] s"

text \<open>\<open>w.endswith('\n')\<close>\<close>

definition ends_nl :: "string \<Rightarrow> bool" where
  "ends_nl w = (w \<noteq> [] \<and> last w = newline)"

text \<open>
  The body of the \<open>for line in f.readlines()\<close> loop of \<open>read_file\<close>, on the accumulator
  \<open>words\<close>. \<open>tmp[-1] = tmp[-1] + '\n'\<close> is an update at the last index; it is reached
  only when \<open>len(tmp) > 1\<close>, so the index is in range.
\<close>

definition read_line :: "string list \<Rightarrow> string \<Rightarrow> string list" where
  "read_line words line =
     (let tmp = split line in
      if length tmp > 1
      then words @ tmp[length tmp - 1 := tmp ! (length tmp - 1) @ [newline]]
      else words)"

fun read_lines :: "string list \<Rightarrow> string list \<Rightarrow> string list" where
  "read_lines words [] = words"
| "read_lines words (line # rest) = read_lines (read_line words line) rest"

text \<open>\<open>read_file\<close> on the list of lines that \<open>f.readlines()\<close> returns.\<close>

definition read_file :: "string list \<Rightarrow> string list" where
  "read_file lines = read_lines [] lines"

text \<open>
  The tokenizer as the specification words it: the lines whose split has at least two
  sub-tokens, each contributing its sub-tokens in order with the marker concatenated to
  the last one.
\<close>

definition qualifies :: "string \<Rightarrow> bool" where
  "qualifies line = (2 \<le> length (split line))"

definition contribution :: "string \<Rightarrow> string list" where
  "contribution line = butlast (split line) @ [last (split line) @ [newline]]"

definition tokenizer_spec :: "string list \<Rightarrow> string list" where
  "tokenizer_spec lines = concat (map contribution (filter qualifies lines))"

section \<open>Python primitives\<close>

datatype py_error = ValueError | IndexError | UnboundLocalError | ZeroDivisionError

type_synonym token = string

text \<open>
  \<open>xs[lo:hi]\<close> for Python integers: a negative bound counts from the end, and both
  bounds are clamped to \<open>0 .. len(xs)\<close>; a slice never raises.
\<close>

definition slice_index :: "nat \<Rightarrow> int \<Rightarrow> nat" where
  "slice_index n i = (if i < 0 then nat (int n + i) else min n (nat i))"

definition py_slice :: "'a list \<Rightarrow> int \<Rightarrow> int \<Rightarrow> 'a list" where
  "py_slice xs lo hi =
     (let l = slice_index (length xs) lo; h = slice_index (length xs) hi
      in take (h - l) (drop l xs))"

text \<open>\<open>range(n)\<close>: empty when \<open>n \<le> 0\<close>.\<close>

definition py_range :: "int \<Rightarrow> int list" where
  "py_range n = map int [0..<nat n]"

text \<open>\<open>' '.join(xs)\<close>\<close>

fun join :: "string list \<Rightarrow> string" where
  "join [] = []"
| "join [x] = x"
| "join (x # y # ys) = x @ '' '' @ join (y # ys)"

section \<open>ChainModel: \<open>generate_chain\<close> and \<open>create_database\<close>\<close>

text \<open>
  A Python \<open>dict\<close> whose keys are tuples of tokens and whose values are lists of tokens:
  an association list with distinct keys, in order of insertion.
\<close>

type_synonym database = "(token list \<times> token list) list"

text \<open>The generator \<open>generate_chain\<close>, as the list of the chains it yields.\<close>

definition generate_chain :: "token list \<Rightarrow> int \<Rightarrow> token list list" where
  "generate_chain words chain_length =
     map (\<lambda>i. py_slice words i (i + chain_length))
         (py_range (int (length words) - chain_length + 1))"

text \<open>\<open>db[key].append(w)\<close> for a key that is present.\<close>

definition db_append :: "database \<Rightarrow> token list \<Rightarrow> token \<Rightarrow> database" where
  "db_append db key w = map (\<lambda>(k, vs). if k = key then (k, vs @ [w]) else (k, vs)) db"

text \<open>
  The \<open>for chain in generate_chain(...)\<close> loop of \<open>create_database\<close>. \<open>chain[:-1]\<close> is
  \<open>butlast\<close> (a slice, total); \<open>chain[-1]\<close> raises \<open>IndexError\<close> on an empty chain, in
  either branch.
\<close>

fun create_database_loop :: "database \<Rightarrow> token list list \<Rightarrow> py_error + database" where
  "create_database_loop db [] = Inr db"
| "create_database_loop db (chain # rest) =
     (let key = butlast chain in
      if chain = [] then Inl IndexError
      else if map_of db key \<noteq> None
      then create_database_loop (db_append db key (last chain)) rest
      else create_database_loop (db @ [(key, [last chain])]) rest)"

definition create_database :: "token list \<Rightarrow> int \<Rightarrow> py_error + database" where
  "create_database words chain_length =
     create_database_loop [] (generate_chain words chain_length)"

text \<open>
  The (context, successor) pairs a database holds: each key paired with each element of
  its successor list.
\<close>

definition db_pairs :: "database \<Rightarrow> (token list \<times> token) list" where
  "db_pairs db = concat (map (\<lambda>(k, vs). map (Pair k) vs) db)"

text \<open>A well-formed database: no key twice, no empty successor list.\<close>

definition db_wf :: "database \<Rightarrow> bool" where
  "db_wf db = (distinct (map fst db) \<and> (\<forall>(key, vs) \<in> set db. vs \<noteq> []))"

text \<open>
  The sliding windows of width \<open>k\<close> as the specification words them: one window at every
  offset from \<open>0\<close> to \<open>len(tokens) - k\<close>, split into its first \<open>k - 1\<close> tokens and its
  last token.
\<close>

definition sliding_windows :: "nat \<Rightarrow> token list \<Rightarrow> token list list" where
  "sliding_windows k tokens = map (\<lambda>i. take k (drop i tokens)) [0..<length tokens + 1 - k]"

definition split_window :: "nat \<Rightarrow> token list \<Rightarrow> token list \<times> token" where
  "split_window k w = (take (k - 1) w, w ! (k - 1))"

section \<open>Generator: \<open>do_markov\<close>\<close>

text \<open>
  The random source is a list of draws, consumed one per call of \<open>random.randint\<close> or
  \<open>random.choice\<close>. A run ends with a value (\<open>Done\<close>), with an exception (\<open>Raised\<close>), or
  is still running when the draws are used up (\<open>Starved\<close>).
\<close>

datatype 'a run = Done 'a | Raised py_error | Starved

text \<open>
  \<open>random.randint(a, b)\<close>: \<open>ValueError\<close> on an empty range, checked before anything is
  drawn; otherwise some integer of \<open>a .. b\<close>, fixed by the draw.
\<close>

definition randint :: "int \<Rightarrow> int \<Rightarrow> nat list \<Rightarrow> (int \<times> nat list) run" where
  "randint a b draws =
     (if b < a then Raised ValueError
      else case draws of
             [] \<Rightarrow> Starved
           | r # rs \<Rightarrow> Done (a + int (r mod nat (b - a + 1)), rs))"

text \<open>
  \<open>random.choice(seq)\<close>, in Python 2 \<open>seq[int(self.random() * len(seq))]\<close>: the number is
  drawn first, and indexing an empty sequence raises \<open>IndexError\<close>.
\<close>

definition choice :: "'a list \<Rightarrow> nat list \<Rightarrow> ('a \<times> nat list) run" where
  "choice seq draws =
     (case draws of
        [] \<Rightarrow> Starved
      | r # rs \<Rightarrow> if seq = [] then Raised IndexError else Done (seq ! (r mod length seq), rs))"

text \<open>The helper \<open>random_word\<close> of \<open>do_markov\<close>.\<close>

definition random_word :: "token list \<Rightarrow> int \<Rightarrow> nat list \<Rightarrow> (token list \<times> nat list) run" where
  "random_word words chain_length draws =
     (case randint 0 (int (length words) - chain_length) draws of
        Done (seed, rs) \<Rightarrow> Done (py_slice words seed (seed + chain_length - 1), rs)
      | Raised e \<Rightarrow> Raised e
      | Starved \<Rightarrow> Starved)"

lemma random_word_draws:
  "random_word words chain_length draws = Done (s, rs) \<Longrightarrow> length rs < length draws"
  by (auto simp: random_word_def randint_def split: if_splits list.splits)

text \<open>
  The inner \<open>while True\<close> loop: \<open>random.choice(db[tuple(start)])\<close>, and on \<open>KeyError\<close> a new
  \<open>start\<close> from \<open>random_word\<close> and another round. It returns the word chosen, the \<open>start\<close>
  it was found with, and the draws left.
\<close>

function next_word_loop ::
  "token list \<Rightarrow> database \<Rightarrow> int \<Rightarrow> token list \<Rightarrow> nat list
   \<Rightarrow> (token \<times> token list \<times> nat list) run" where
  "next_word_loop words db chain_length start draws =
     (case map_of db start of
        Some vs \<Rightarrow>
          (case choice vs draws of
             Done (w, rs) \<Rightarrow> Done (w, start, rs)
           | Raised e \<Rightarrow> Raised e
           | Starved \<Rightarrow> Starved)
      | None \<Rightarrow>
          (case random_word words chain_length draws of
             Done (start', rs) \<Rightarrow> next_word_loop words db chain_length start' rs
           | Raised e \<Rightarrow> Raised e
           | Starved \<Rightarrow> Starved))"
  by pat_completeness auto
termination
  by (relation "measure (\<lambda>(words, db, chain_length, start, draws). length draws)")
     (auto dest: random_word_draws)

declare next_word_loop.simps [simp del]

lemma next_word_loop_draws:
  "next_word_loop words db chain_length start draws = Done (w, start', rs)
   \<Longrightarrow> length rs < length draws"
proof (induction words db chain_length start draws rule: next_word_loop.induct)
  case (1 words db chain_length start draws)
  show ?case
  proof (cases "map_of db start")
    case None
    then obtain s1 r1 where rw: "random_word words chain_length draws = Done (s1, r1)"
      and nx: "next_word_loop words db chain_length s1 r1 = Done (w, start', rs)"
      using "1.prems" by (auto simp: next_word_loop.simps[of words db chain_length start draws]
                               split: run.splits)
    have "length rs < length r1"
      using "1.IH"[OF None rw refl nx] .
    moreover have "length r1 < length draws"
      using rw by (rule random_word_draws)
    ultimately show ?thesis by simp
  next
    case (Some vs)
    then show ?thesis
      using "1.prems"
      by (auto simp: next_word_loop.simps[of words db chain_length start draws] choice_def
               split: run.splits list.splits if_splits)
  qed
qed

text \<open>
  The \<open>while current < size\<close> loop (\<open>size\<close> is written \<open>gensize\<close>, its name at the
  call) on its variables \<open>start\<close>, \<open>generated\<close>, \<open>current\<close> and
  \<open>next_word\<close> (\<open>None\<close> while unbound); it returns \<open>generated\<close>, \<open>current\<close> and \<open>next_word\<close>
  as the loop leaves them. \<open>start[0]\<close> raises \<open>IndexError\<close> on an empty \<open>start\<close>;
  \<open>start[1:]\<close> is a slice.
\<close>

function markov_loop ::
  "token list \<Rightarrow> database \<Rightarrow> int \<Rightarrow> int \<Rightarrow> token list \<Rightarrow> token list \<Rightarrow> int
   \<Rightarrow> token option \<Rightarrow> nat list \<Rightarrow> (token list \<times> int \<times> token option) run" where
  "markov_loop words db chain_length gensize start generated current next_word draws =
     (if current < gensize then
        (case start of
           [] \<Rightarrow> Raised IndexError
         | s0 # _ \<Rightarrow>
             (case next_word_loop words db chain_length start draws of
                Done (w, start', rs) \<Rightarrow>
                  markov_loop words db chain_length gensize (tl start' @ [w]) (generated @ [s0])
                    (if ends_nl w then current + 1 else current) (Some w) rs
              | Raised e \<Rightarrow> Raised e
              | Starved \<Rightarrow> Starved))
      else Done (generated, current, next_word))"
  by pat_completeness auto
termination
  by (relation "measure (\<lambda>(words, db, chain_length, gensize, start, generated, current,
                           next_word, draws). length draws)")
     (auto dest: next_word_loop_draws)

declare markov_loop.simps [simp del]

text \<open>
  One generation step, the body of the \<open>while current < size\<close> loop on its own: from
  \<open>start\<close>, \<open>generated\<close> and \<open>current\<close> to their new values, the word assigned to
  \<open>next_word\<close> and the draws left.
\<close>

definition markov_body ::
  "token list \<Rightarrow> database \<Rightarrow> int \<Rightarrow> token list \<Rightarrow> token list \<Rightarrow> int \<Rightarrow> nat list
   \<Rightarrow> (token list \<times> token list \<times> int \<times> token \<times> nat list) run" where
  "markov_body words db chain_length start generated current draws =
     (case start of
        [] \<Rightarrow> Raised IndexError
      | s0 # _ \<Rightarrow>
          (case next_word_loop words db chain_length start draws of
             Done (w, start', rs) \<Rightarrow>
               Done (tl start' @ [w], generated @ [s0],
                     if ends_nl w then current + 1 else current, w, rs)
           | Raised e \<Rightarrow> Raised e
           | Starved \<Rightarrow> Starved))"

text \<open>
  \<open>do_markov\<close> up to the last \<open>generated.append(next_word)\<close>, which raises
  \<open>UnboundLocalError\<close> when the loop never assigned \<open>next_word\<close>: the list \<open>generated\<close>
  that is joined, with the final value of \<open>current\<close>.
\<close>

definition do_markov_tokens ::
  "token list \<Rightarrow> database \<Rightarrow> int \<Rightarrow> int \<Rightarrow> nat list \<Rightarrow> (token list \<times> int) run" where
  "do_markov_tokens words db chain_length gensize draws =
     (case random_word words chain_length draws of
        Done (start, rs) \<Rightarrow>
          (case markov_loop words db chain_length gensize start [] 0 None rs of
             Done (generated, current, next_word) \<Rightarrow>
               (case next_word of
                  None \<Rightarrow> Raised UnboundLocalError
                | Some w \<Rightarrow> Done (generated @ [w], current))
           | Raised e \<Rightarrow> Raised e
           | Starved \<Rightarrow> Starved)
      | Raised e \<Rightarrow> Raised e
      | Starved \<Rightarrow> Starved)"

definition do_markov :: "token list \<Rightarrow> database \<Rightarrow> int \<Rightarrow> int \<Rightarrow> nat list \<Rightarrow> string run" where
  "do_markov words db chain_length gensize draws =
     (case do_markov_tokens words db chain_length gensize draws of
        Done (generated, current) \<Rightarrow> Done (join generated)
      | Raised e \<Rightarrow> Raised e
      | Starved \<Rightarrow> Starved)"

section \<open>StatsReporter: \<open>db_stats\<close>\<close>

definition sys_maxint :: int where
  "sys_maxint = 2 ^ 63 - 1"

text \<open>The first loop: \<open>(min_len, max_len, num_options)\<close> after each key.\<close>

fun options_loop :: "int \<times> int \<times> int \<Rightarrow> database \<Rightarrow> int \<times> int \<times> int" where
  "options_loop acc [] = acc"
| "options_loop (min_len, max_len, num_options) ((key, vs) # rest) =
     (let tmp_len = int (length vs) in
      options_loop (if tmp_len < min_len then tmp_len else min_len,
                    if tmp_len > max_len then tmp_len else max_len,
                    num_options + tmp_len) rest)"

text \<open>The second loop: \<open>sum_squares\<close> after each key.\<close>

fun squares_loop :: "real \<Rightarrow> real \<Rightarrow> database \<Rightarrow> real" where
  "squares_loop avg sum_sq [] = sum_sq"
| "squares_loop avg sum_sq ((key, vs) # rest) =
     squares_loop avg (sum_sq + (real (length vs) - avg) ^ 2) rest"

text \<open>
  Python floats are idealised as reals. The record holds the six values \<open>db_stats\<close>
  prints, in the order of its \<open>print\<close> calls; the last one, printed as
  \<open>Standard Deviation\<close>, is \<open>math.sqrt(sum_squares)\<close>.
\<close>

record stats =
  num_keys :: nat
  avg_options :: real
  min_len :: int
  max_len :: int
  sum_squares :: real
  standard_deviation :: real

definition db_stats :: "database \<Rightarrow> py_error + stats" where
  "db_stats db =
     (case options_loop (sys_maxint, 0, 0) db of
        (mn, mx, num_options) \<Rightarrow>
          if length db = 0 then Inl ZeroDivisionError
          else
            let avg = real_of_int num_options / real (length db);
                sq = squares_loop avg 0 db
            in Inr \<lparr>num_keys = length db, avg_options = avg, min_len = mn, max_len = mx,
                     sum_squares = sq, standard_deviation = sqrt sq\<rparr>)"

text \<open>
  The population standard deviation of the branching factors, as the specification
  words it: the square root of the sum of squared deviations divided by the key count.
\<close>

definition population_std :: "stats \<Rightarrow> real" where
  "population_std s = sqrt (sum_squares s / real (num_keys s))"

section \<open>Properties of the tokenizer\<close>

lemma update_last:
  "xs \<noteq> [] \<Longrightarrow> xs[length xs - 1 := v] = butlast xs @ [v]"
  by (cases xs rule: rev_cases) simp_all

lemma read_line_contribution:
  "read_line words line = (if qualifies line then words @ contribution line else words)"
proof (cases "qualifies line")
  case True
  then have ne: "split line \<noteq> []"
    by (auto simp: qualifies_def)
  have "(split line)[length (split line) - 1 := last (split line) @ [newline]]
        = butlast (split line) @ [last (split line) @ [newline]]"
    using ne by (rule update_last)
  moreover have "split line ! (length (split line) - 1) = last (split line)"
    using ne by (simp add: last_conv_nth)
  ultimately show ?thesis
    using True by (simp add: read_line_def qualifies_def contribution_def Let_def)
next
  case False
  then show ?thesis
    by (simp add: read_line_def qualifies_def Let_def)
qed

lemma read_lines_spec: "read_lines words lines = words @ tokenizer_spec lines"
  by (induction lines arbitrary: words)
     (simp_all add: tokenizer_spec_def read_line_contribution)

lemma split_aux_clean:
  "\<forall>c \<in> set cur. \<not> is_space c \<Longrightarrow> w \<in> set (split_aux cur s) \<Longrightarrow> w \<noteq> [] \<and> (\<forall>c \<in> set w. \<not> is_space c)"
proof (induction cur s rule: split_aux.induct)
  case (1 cur)
  then show ?case by (cases "cur = []") simp_all
next
  case (2 cur c cs)
  show ?case
  proof (cases "is_space c")
    case True
    then have "w = cur \<and> cur \<noteq> [] \<or> w \<in> set (split_aux [] cs)"
      using "2.prems"(2) by (cases "cur = []") simp_all
    then show ?thesis
      using "2.IH"(1)[OF True] "2.prems"(1) by auto
  next
    case False
    then have "w \<in> set (split_aux (cur @ [c]) cs)"
      using "2.prems"(2) by simp
    moreover have "\<forall>c \<in> set (cur @ [c]). \<not> is_space c"
      using False "2.prems"(1) by simp
    ultimately show ?thesis
      using "2.IH"(2)[OF False] by blast
  qed
qed

lemma split_clean: "w \<in> set (split s) \<Longrightarrow> w \<noteq> [] \<and> (\<forall>c \<in> set w. \<not> is_space c)"
  unfolding split_def by (rule split_aux_clean) simp_all

lemma split_not_ends_nl: "w \<in> set (split s) \<Longrightarrow> \<not> ends_nl w"
  using split_clean[of w s] by (auto simp: ends_nl_def is_space_def newline_def)

lemma ends_nl_snoc: "ends_nl (w @ [newline])"
  by (simp add: ends_nl_def)

lemma filter_contribution:
  "filter ends_nl (contribution l) = [last (split l) @ [newline]]"
proof -
  have "filter ends_nl (butlast (split l)) = []"
    by (auto simp: filter_empty_conv dest: in_set_butlastD split_not_ends_nl)
  then show ?thesis by (simp add: contribution_def ends_nl_snoc)
qed

lemma count_markers_spec:
  "length (filter ends_nl (tokenizer_spec lines)) = length (filter qualifies lines)"
  by (induction lines) (simp_all add: tokenizer_spec_def filter_contribution)

lemma contribution_nth:
  assumes "i < length (contribution l)"
  shows "ends_nl (contribution l ! i) = (i = length (contribution l) - 1)"
proof (cases "i = length (contribution l) - 1")
  case True
  then show ?thesis by (simp add: contribution_def nth_append ends_nl_snoc)
next
  case False
  with assms have lt: "i < length (butlast (split l))" by (simp add: contribution_def)
  then have "contribution l ! i \<in> set (butlast (split l))"
    by (simp add: contribution_def nth_append)
  then have "\<not> ends_nl (contribution l ! i)"
    by (auto dest: in_set_butlastD split_not_ends_nl)
  with False show ?thesis by simp
qed

text \<open>
  C9. For every sequence of input lines \<open>read_file\<close> returns the concatenation, in
  order, of the contributions of the lines whose whitespace split has at least two
  sub-tokens; a contribution is the split with the marker concatenated to its last
  sub-token (no extra token); lines with fewer than two sub-tokens contribute nothing;
  the empty input gives the empty token sequence.
\<close>

theorem read_file_refines_tokenizer:
  "read_file lines = tokenizer_spec lines \<and> read_file [] = []"
  by (simp add: read_file_def read_lines_spec) (simp add: tokenizer_spec_def)

theorem read_file_refines_tokenizer_witness:
  "read_file [''the cat  sat\<newline>'', ''solo\<newline>'', ''\<newline>'', '' the dog ran'']
   = [''the'', ''cat'', ''sat\<newline>'', ''the'', ''dog'', ''ran\<newline>'']"
proof -
  have "tokenizer_spec [''the cat  sat\<newline>'', ''solo\<newline>'', ''\<newline>'', '' the dog ran'']
        = [''the'', ''cat'', ''sat\<newline>'', ''the'', ''dog'', ''ran\<newline>'']"
    by code_simp
  then show ?thesis
    using read_file_refines_tokenizer[of
        "[''the cat  sat\<newline>'', ''solo\<newline>'', ''\<newline>'', '' the dog ran'']"]
    by simp
qed

text \<open>
  C10. In the token sequence of \<open>read_file\<close>, which is the concatenation of the
  contributions of the qualifying lines, a token of a contribution ends with the marker
  exactly when it is the last token of that contribution; so the number of
  marker-ending tokens equals the number of input lines with at least two
  whitespace-separated words.
\<close>

theorem read_file_marker_tokens:
  "read_file lines = concat (map contribution (filter qualifies lines))
   \<and> (\<forall>l \<in> set (filter qualifies lines). \<forall>i < length (contribution l).
          ends_nl (contribution l ! i) = (i = length (contribution l) - 1))
   \<and> length (filter ends_nl (read_file lines))
       = length (filter (\<lambda>l. 2 \<le> length (split l)) lines)"
proof -
  have "read_file lines = tokenizer_spec lines"
    by (simp add: read_file_def read_lines_spec)
  moreover have "(\<lambda>l. 2 \<le> length (split l)) = qualifies"
    by (simp add: qualifies_def fun_eq_iff)
  ultimately show ?thesis
    by (simp add: count_markers_spec contribution_nth) (simp add: tokenizer_spec_def)
qed

theorem read_file_marker_tokens_witness:
  "''the cat sat\<newline>'' \<in> set (filter qualifies [''the cat sat\<newline>'', ''solo\<newline>'', ''the dog ran\<newline>''])
   \<and> length (contribution ''the cat sat\<newline>'') = 3
   \<and> \<not> ends_nl (contribution ''the cat sat\<newline>'' ! 1)
   \<and> ends_nl (contribution ''the cat sat\<newline>'' ! 2)
   \<and> length (filter ends_nl
         (read_file [''the cat sat\<newline>'', ''solo\<newline>'', ''the dog ran\<newline>''])) = 2"
proof -
  let ?ls = "[''the cat sat\<newline>'', ''solo\<newline>'', ''the dog ran\<newline>'']"
  have q: "filter qualifies ?ls = [''the cat sat\<newline>'', ''the dog ran\<newline>'']"
    by code_simp
  have n: "length (contribution ''the cat sat\<newline>'') = 3"
    by code_simp
  have c: "length (filter (\<lambda>l. 2 \<le> length (split l)) ?ls) = 2"
    by code_simp
  have mem: "''the cat sat\<newline>'' \<in> set (filter qualifies ?ls)"
    unfolding q by simp
  have all: "\<forall>i < length (contribution ''the cat sat\<newline>'').
               ends_nl (contribution ''the cat sat\<newline>'' ! i)
               = (i = length (contribution ''the cat sat\<newline>'') - 1)"
    using read_file_marker_tokens[of ?ls] mem by blast
  have "\<not> ends_nl (contribution ''the cat sat\<newline>'' ! 1)"
    and "ends_nl (contribution ''the cat sat\<newline>'' ! 2)"
    using all unfolding n by simp_all
  moreover have "length (filter ends_nl (read_file ?ls)) = 2"
    using read_file_marker_tokens[of ?ls] unfolding c by blast
  ultimately show ?thesis
    using mem n by blast
qed

section \<open>Properties of the chain model\<close>

lemma py_slice_window:
  assumes "0 \<le> k" "i + nat k \<le> length xs"
  shows "py_slice xs (int i) (int i + k) = take (nat k) (drop i xs)"
proof -
  have "slice_index (length xs) (int i) = i"
    using assms by (simp add: slice_index_def)
  moreover have "slice_index (length xs) (int i + k) = i + nat k"
    using assms by (simp add: slice_index_def nat_add_distrib)
  ultimately show ?thesis
    by (simp add: py_slice_def)
qed

lemma generate_chain_windows:
  assumes "1 \<le> k"
  shows "generate_chain words k = sliding_windows (nat k) words"
proof -
  have n: "nat (int (length words) - k + 1) = length words + 1 - nat k"
    using assms by linarith
  have "py_slice words (int i) (int i + k) = take (nat k) (drop i words)"
    if "i < length words + 1 - nat k" for i
    using that assms by (intro py_slice_window) linarith+
  then show ?thesis
    by (simp add: generate_chain_def sliding_windows_def py_range_def n comp_def)
qed

lemma sliding_windows_length:
  "w \<in> set (sliding_windows k tokens) \<Longrightarrow> length w = k"
  by (auto simp: sliding_windows_def)

lemma split_window_butlast_last:
  assumes "length w = k" "0 < k"
  shows "(butlast w, last w) = split_window k w"
proof -
  have "w \<noteq> []" using assms by auto
  then show ?thesis
    using assms by (simp add: split_window_def butlast_conv_take last_conv_nth)
qed

lemma map_of_None_iff: "(map_of db key = None) = (key \<notin> fst ` set db)"
  by (simp add: map_of_eq_None_iff)

lemma db_append_keys: "map fst (db_append db key w) = map fst db"
  by (induction db) (auto simp: db_append_def)

lemma db_append_nonempty:
  "\<forall>(k, vs) \<in> set db. vs \<noteq> [] \<Longrightarrow> \<forall>(k, vs) \<in> set (db_append db key w). vs \<noteq> []"
  by (auto simp: db_append_def split: if_splits)

lemma db_append_pairs:
  "distinct (map fst db) \<Longrightarrow> key \<in> fst ` set db
   \<Longrightarrow> mset (db_pairs (db_append db key w)) = mset (db_pairs db) + {#(key, w)#}"
proof (induction db)
  case Nil
  then show ?case by simp
next
  case (Cons e db)
  obtain k vs where e: "e = (k, vs)" by (cases e)
  show ?case
  proof (cases "k = key")
    case True
    then have "key \<notin> fst ` set db"
      using Cons.prems(1) e by auto
    then have "db_append db key w = db"
      by (induction db) (auto simp: db_append_def)
    then show ?thesis
      using True e by (simp add: db_pairs_def db_append_def)
  next
    case False
    then have "key \<in> fst ` set db"
      using Cons.prems(2) e by auto
    moreover have "distinct (map fst db)"
      using Cons.prems(1) by simp
    ultimately have "mset (db_pairs (db_append db key w)) = mset (db_pairs db) + {#(key, w)#}"
      by (rule Cons.IH[rotated])
    then show ?thesis
      using False e by (simp add: db_pairs_def db_append_def)
  qed
qed

lemma db_new_key_pairs: "db_pairs (db @ [(key, [w])]) = db_pairs db @ [(key, w)]"
  by (simp add: db_pairs_def)

lemma create_database_loop_pairs:
  assumes "\<forall>c \<in> set chs. c \<noteq> []" "db_wf db"
  shows "\<exists>db'. create_database_loop db chs = Inr db' \<and> db_wf db'
           \<and> mset (db_pairs db') = mset (db_pairs db) + mset (map (\<lambda>c. (butlast c, last c)) chs)"
  using assms
proof (induction chs arbitrary: db)
  case Nil
  then show ?case by simp
next
  case (Cons chain rest)
  have ne: "chain \<noteq> []" and rest: "\<forall>c \<in> set rest. c \<noteq> []"
    using Cons.prems(1) by simp_all
  let ?key = "butlast chain" and ?w = "last chain"
  show ?case
  proof (cases "map_of db ?key = None")
    case True
    let ?db1 = "db @ [(?key, [?w])]"
    have "?key \<notin> fst ` set db"
      using True by (simp add: map_of_None_iff)
    then have wf1: "db_wf ?db1"
      using Cons.prems(2) by (auto simp: db_wf_def)
    from Cons.IH[OF rest wf1] obtain db' where
      "create_database_loop ?db1 rest = Inr db'" "db_wf db'"
      "mset (db_pairs db') = mset (db_pairs ?db1) + mset (map (\<lambda>c. (butlast c, last c)) rest)"
      by blast
    then show ?thesis
      using True ne by (simp add: db_new_key_pairs Let_def)
  next
    case False
    let ?db1 = "db_append db ?key ?w"
    have mem: "?key \<in> fst ` set db"
      using False by (simp add: map_of_None_iff)
    have wf1: "db_wf ?db1"
      using Cons.prems(2) db_append_nonempty[of db ?key ?w]
      by (simp add: db_wf_def db_append_keys)
    have p1: "mset (db_pairs ?db1) = mset (db_pairs db) + {#(?key, ?w)#}"
      using Cons.prems(2) mem by (intro db_append_pairs) (simp_all add: db_wf_def)
    from Cons.IH[OF rest wf1] obtain db' where
      "create_database_loop ?db1 rest = Inr db'" "db_wf db'"
      "mset (db_pairs db') = mset (db_pairs ?db1) + mset (map (\<lambda>c. (butlast c, last c)) rest)"
      by blast
    then show ?thesis
      using False ne p1 by (simp add: Let_def)
  qed
qed

lemma create_database_windows:
  assumes "1 \<le> k"
  shows "\<exists>db. create_database words k = Inr db \<and> db_wf db
           \<and> mset (db_pairs db) = mset (map (split_window (nat k)) (sliding_windows (nat k) words))"
proof -
  let ?ws = "sliding_windows (nat k) words"
  have len: "\<forall>c \<in> set ?ws. length c = nat k"
    by (simp add: sliding_windows_length)
  then have ne: "\<forall>c \<in> set ?ws. c \<noteq> []"
    using assms by auto
  have "db_wf []" by (simp add: db_wf_def)
  from create_database_loop_pairs[OF ne this] obtain db where
    db: "create_database_loop [] ?ws = Inr db" "db_wf db"
    "mset (db_pairs db) = mset (map (\<lambda>c. (butlast c, last c)) ?ws)"
    by (auto simp: db_pairs_def)
  have m: "map (\<lambda>c. (butlast c, last c)) ?ws = map (split_window (nat k)) ?ws"
    using len assms by (intro map_cong refl split_window_butlast_last) auto
  have "mset (db_pairs db) = mset (map (split_window (nat k)) ?ws)"
    using db(3) unfolding m .
  moreover have "create_database words k = Inr db"
    using db(1) assms by (simp add: create_database_def generate_chain_windows)
  ultimately show ?thesis
    using db(2) by blast
qed

lemma generate_chain_short:
  "int (length words) < k \<Longrightarrow> generate_chain words k = []"
  by (simp add: generate_chain_def py_range_def)


text \<open>
  C6. For every order \<open>k \<ge> 2\<close> and token sequence of length at least \<open>k\<close>,
  \<open>create_database\<close> returns a mapping (no key twice) in which every successor list
  has length at least 1, and the multiset of its (context, successor) pairs is exactly
  the multiset of the width-\<open>k\<close> sliding windows of the input, each split into its first
  \<open>k - 1\<close> tokens and its last token.
\<close>

theorem create_database_sliding_windows:
  assumes "2 \<le> k" and "k \<le> int (length words)"
  shows "\<exists>db. create_database words k = Inr db
           \<and> distinct (map fst db)
           \<and> (\<forall>(key, vs) \<in> set db. 1 \<le> length vs)
           \<and> mset (db_pairs db)
               = mset (map (split_window (nat k)) (sliding_windows (nat k) words))"
proof -
  from assms(1) have "1 \<le> k" by simp
  from create_database_windows[OF this, of words] obtain db where
    db: "create_database words k = Inr db" "db_wf db"
    "mset (db_pairs db) = mset (map (split_window (nat k)) (sliding_windows (nat k) words))"
    by blast
  have "\<forall>(key, vs) \<in> set db. 1 \<le> length vs"
    using db(2) by (auto simp: db_wf_def Suc_le_eq)
  then show ?thesis
    using db by (auto simp: db_wf_def)
qed

theorem create_database_sliding_windows_witness:
  "\<exists>db. create_database [''the'', ''cat'', ''sat\<newline>'', ''the'', ''dog'', ''ran\<newline>''] 3 = Inr db
         \<and> distinct (map fst db)
         \<and> (\<forall>(key, vs) \<in> set db. 1 \<le> length vs)
         \<and> mset (db_pairs db)
             = {#([''the'', ''cat''], ''sat\<newline>''), ([''cat'', ''sat\<newline>''], ''the''),
                 ([''sat\<newline>'', ''the''], ''dog''), ([''the'', ''dog''], ''ran\<newline>'')#}"
proof -
  let ?ws = "[''the'', ''cat'', ''sat\<newline>'', ''the'', ''dog'', ''ran\<newline>'']"
  have h1: "(2::int) \<le> 3" by simp
  have h2: "(3::int) \<le> int (length ?ws)" by simp
  have w: "map (split_window (nat 3)) (sliding_windows (nat 3) ?ws)
           = [([''the'', ''cat''], ''sat\<newline>''), ([''cat'', ''sat\<newline>''], ''the''),
              ([''sat\<newline>'', ''the''], ''dog''), ([''the'', ''dog''], ''ran\<newline>'')]"
    by code_simp
  show ?thesis
    using create_database_sliding_windows[OF h1 h2] unfolding w by simp
qed

text \<open>
  C8. \<open>create_database\<close> does not raise for any order \<open>\<ge> 1\<close>, and for every token
  sequence strictly shorter than the order it returns the empty model.
\<close>

theorem create_database_short_corpus:
  "(1 \<le> chain_length \<longrightarrow> (\<exists>db. create_database words chain_length = Inr db))
   \<and> (int (length words) < chain_length \<longrightarrow> create_database words chain_length = Inr [])"
  using create_database_windows[of chain_length words]
  by (auto simp: create_database_def generate_chain_short)

theorem create_database_short_corpus_witness:
  "(1::int) \<le> 3 \<and> int (length [''the'', ''cat\<newline>'']) < 3
   \<and> create_database [''the'', ''cat\<newline>''] 3 = Inr []"
  using create_database_short_corpus[of 3 "[''the'', ''cat\<newline>'']"] by simp

section \<open>Properties of the generator\<close>

lemma random_word_short:
  "int (length words) < k \<Longrightarrow> random_word words k draws = Raised ValueError"
  by (simp add: random_word_def randint_def)

lemma do_markov_short:
  "int (length words) < k \<Longrightarrow> do_markov words db k gensize draws = Raised ValueError"
  by (simp add: do_markov_def do_markov_tokens_def random_word_short)

lemma random_word_window:
  assumes "random_word words k draws = Done (s, rs)"
  shows "\<exists>r seed. draws = r # rs \<and> 0 \<le> seed \<and> seed \<le> int (length words) - k
           \<and> s = py_slice words seed (seed + k - 1)"
proof -
  have le: "0 \<le> int (length words) - k"
    using assms by (auto simp: random_word_def randint_def split: if_splits)
  then obtain r where d: "draws = r # rs"
    and s: "s = py_slice words (int (r mod nat (int (length words) - k + 1)))
                  (int (r mod nat (int (length words) - k + 1)) + k - 1)"
    using assms by (auto simp: random_word_def randint_def split: if_splits list.splits)
  have "r mod nat (int (length words) - k + 1) < nat (int (length words) - k + 1)"
    using le by (intro mod_less_divisor) simp
  then have "int (r mod nat (int (length words) - k + 1)) \<le> int (length words) - k"
    by linarith
  then show ?thesis
    using d s by (intro exI[of _ r] exI[of _ "int (r mod nat (int (length words) - k + 1))"]) simp
qed

lemma next_word_loop_hit:
  "map_of db s = Some vs \<Longrightarrow>
   next_word_loop words db k s draws =
     (case choice vs draws of Done (w, rs) \<Rightarrow> Done (w, s, rs)
      | Raised e \<Rightarrow> Raised e | Starved \<Rightarrow> Starved)"
  by (simp add: next_word_loop.simps[of words db k s draws])

lemma next_word_loop_miss:
  "map_of db s = None \<Longrightarrow>
   next_word_loop words db k s draws =
     (case random_word words k draws of Done (s', rs) \<Rightarrow> next_word_loop words db k s' rs
      | Raised e \<Rightarrow> Raised e | Starved \<Rightarrow> Starved)"
  by (simp add: next_word_loop.simps[of words db k s draws])

lemma next_word_loop_found:
  "next_word_loop words db k s draws = Done (w, s', rs) \<Longrightarrow>
   (\<exists>vs. map_of db s' = Some vs \<and> w \<in> set vs)
   \<and> (s' = s \<or> (\<exists>seed. 0 \<le> seed \<and> seed \<le> int (length words) - k
                     \<and> s' = py_slice words seed (seed + k - 1)))"
proof (induction words db k s draws rule: next_word_loop.induct)
  case (1 words db k s draws)
  show ?case
  proof (cases "map_of db s")
    case None
    then obtain s1 r1 where rw: "random_word words k draws = Done (s1, r1)"
      and nx: "next_word_loop words db k s1 r1 = Done (w, s', rs)"
      using "1.prems" by (auto simp: next_word_loop_miss split: run.splits)
    have ih: "(\<exists>vs. map_of db s' = Some vs \<and> w \<in> set vs)
              \<and> (s' = s1 \<or> (\<exists>seed. 0 \<le> seed \<and> seed \<le> int (length words) - k
                     \<and> s' = py_slice words seed (seed + k - 1)))"
      using "1.IH"[OF None rw refl nx] .
    moreover have "\<exists>seed. 0 \<le> seed \<and> seed \<le> int (length words) - k
                     \<and> s1 = py_slice words seed (seed + k - 1)"
      using random_word_window[OF rw] by blast
    ultimately show ?thesis by blast
  next
    case (Some vs)
    then have "choice vs draws = Done (w, rs)" and "s' = s"
      using "1.prems" by (auto simp: next_word_loop_hit split: run.splits)
    then have "w \<in> set vs"
      by (auto simp: choice_def split: list.splits if_splits)
    then show ?thesis
      using Some \<open>s' = s\<close> by simp
  qed
qed

lemma markov_loop_step:
  "current < gensize \<Longrightarrow> next_word_loop words db k (s0 # s) draws = Done (w, s', rs) \<Longrightarrow>
   markov_loop words db k gensize (s0 # s) generated current nw draws =
   markov_loop words db k gensize (tl s' @ [w]) (generated @ [s0])
     (if ends_nl w then current + 1 else current) (Some w) rs"
  by (simp add: markov_loop.simps[of words db k gensize "s0 # s" generated current nw draws])

lemma markov_loop_exit:
  "markov_loop words db k gensize s generated current nw draws = Done (g', c', nw') \<Longrightarrow>
   current \<le> gensize \<Longrightarrow> (current = gensize \<longrightarrow> (\<exists>w. nw = Some w \<and> ends_nl w)) \<Longrightarrow>
   c' = gensize \<and> (\<exists>w. nw' = Some w \<and> ends_nl w)"
proof (induction words db k gensize s generated current nw draws
       rule: markov_loop.induct)
  case (1 words db k gensize s generated current nw draws)
  note unf = markov_loop.simps[of words db k gensize s generated current nw draws]
  show ?case
  proof (cases "current < gensize")
    case False
    then have "current = gensize" using "1.prems"(2) by simp
    moreover have "c' = current" and "nw' = nw"
      using "1.prems"(1) False unfolding unf by simp_all
    ultimately show ?thesis using "1.prems"(3) by simp
  next
    case True
    then obtain s0 rest where s: "s = s0 # rest"
      using "1.prems"(1) unfolding unf by (cases s) simp_all
    obtain w s' rs where nx: "next_word_loop words db k s draws = Done (w, s', rs)"
      using "1.prems"(1) True s unfolding unf by (auto split: run.splits)
    let ?c = "if ends_nl w then current + 1 else current"
    have rec: "markov_loop words db k gensize (tl s' @ [w]) (generated @ [s0]) ?c (Some w) rs
               = Done (g', c', nw')"
      using "1.prems"(1) markov_loop_step[OF True nx[unfolded s]] s by simp
    have le: "?c \<le> gensize" using True by simp
    have inv: "?c = gensize \<longrightarrow> (\<exists>v. Some w = Some v \<and> ends_nl v)"
      using True by auto
    show ?thesis
      using "1.IH"[OF True s nx refl refl rec le inv] .
  qed
qed

lemma markov_loop_no_lines:
  "gensize \<le> 0 \<Longrightarrow>
   markov_loop words db k gensize s [] 0 None draws = Done ([], 0, None)"
  by (simp add: markov_loop.simps[of words db k gensize s "[]" 0 None draws])

lemma do_markov_no_lines:
  "gensize \<le> 0 \<Longrightarrow> do_markov words db k gensize draws \<noteq> Done out"
  by (auto simp: do_markov_def do_markov_tokens_def markov_loop_no_lines split: run.splits)

lemma random_word_singleD:
  "random_word words k (d # rs) = Done (win, rs')
   \<Longrightarrow> rs' = rs \<and> random_word words k [d] = Done (win, [])"
  by (simp add: random_word_def randint_def split: if_splits)

lemma random_word_singleI:
  "random_word words k [d] = Done (win, [])
   \<Longrightarrow> random_word words k (d # rs) = Done (win, rs)"
  by (simp add: random_word_def randint_def split: if_splits)

lemma next_word_loop_trace:
  assumes "next_word_loop words db k s draws = Done (w, s', rs')"
  shows "\<exists>misses wins r vs.
           draws = misses @ r # rs'
           \<and> list_all2 (\<lambda>d win. random_word words k [d] = Done (win, [])) misses wins
           \<and> (\<forall>x \<in> set (butlast (s # wins)). map_of db x = None)
           \<and> s' = last (s # wins)
           \<and> map_of db s' = Some vs \<and> vs \<noteq> [] \<and> w = vs ! (r mod length vs)"
  using assms
proof (induction words db k s draws rule: next_word_loop.induct)
  case (1 words db k s draws)
  show ?case
  proof (cases "map_of db s")
    case None
    then obtain s1 r1 where rw: "random_word words k draws = Done (s1, r1)"
      and nx: "next_word_loop words db k s1 r1 = Done (w, s', rs')"
      using "1.prems" by (auto simp: next_word_loop_miss split: run.splits)
    obtain d where d: "draws = d # r1"
      using random_word_window[OF rw] by blast
    have rw1: "random_word words k [d] = Done (s1, [])"
      using rw random_word_singleD[of words k d r1 s1 r1] unfolding d by blast
    from "1.IH"[OF None rw refl nx] obtain misses wins r vs where
      ih: "r1 = misses @ r # rs'"
          "list_all2 (\<lambda>d win. random_word words k [d] = Done (win, [])) misses wins"
          "\<forall>x \<in> set (butlast (s1 # wins)). map_of db x = None"
          "s' = last (s1 # wins)"
          "map_of db s' = Some vs" "vs \<noteq> []" "w = vs ! (r mod length vs)"
      by blast
    have a: "draws = (d # misses) @ r # rs'"
      using d ih(1) by simp
    have b: "list_all2 (\<lambda>d win. random_word words k [d] = Done (win, []))
               (d # misses) (s1 # wins)"
      using rw1 ih(2) by simp
    have c: "\<forall>x \<in> set (butlast (s # s1 # wins)). map_of db x = None"
      using None ih(3) by simp
    have e: "s' = last (s # s1 # wins)"
      using ih(4) by simp
    show ?thesis
      using a b c e ih(5,6,7) by blast
  next
    case (Some vs)
    then have ch: "choice vs draws = Done (w, rs')" and s: "s' = s"
      using "1.prems" by (auto simp: next_word_loop_hit split: run.splits)
    then obtain r where "draws = r # rs'" "vs \<noteq> []" "w = vs ! (r mod length vs)"
      by (auto simp: choice_def split: list.splits if_splits)
    then have "draws = [] @ r # rs'
           \<and> list_all2 (\<lambda>d win. random_word words k [d] = Done (win, [])) [] []
           \<and> (\<forall>x \<in> set (butlast (s # [])). map_of db x = None)
           \<and> s' = last (s # [])
           \<and> map_of db s' = Some vs \<and> vs \<noteq> [] \<and> w = vs ! (r mod length vs)"
      using Some s by simp
    then show ?thesis by blast
  qed
qed

lemma next_word_loop_replay:
  assumes "list_all2 (\<lambda>d win. random_word words k [d] = Done (win, [])) misses wins"
    and "\<forall>x \<in> set (butlast (s # wins)). map_of db x = None"
    and "map_of db (last (s # wins)) = Some vs" and "vs \<noteq> []"
  shows "next_word_loop words db k s (misses @ r # rs')
         = Done (vs ! (r mod length vs), last (s # wins), rs')"
  using assms
proof (induction misses wins arbitrary: s rule: list_all2_induct)
  case Nil
  then show ?case
    by (simp add: next_word_loop_hit choice_def)
next
  case (Cons d misses win wins)
  have none: "map_of db s = None"
    using Cons.prems(1) by simp
  have rw: "random_word words k (d # misses @ r # rs') = Done (win, misses @ r # rs')"
    using Cons.hyps(1) by (rule random_word_singleI)
  have "next_word_loop words db k win (misses @ r # rs')
        = Done (vs ! (r mod length vs), last (win # wins), rs')"
    using Cons.prems by (intro Cons.IH) simp_all
  then show ?case
    using none rw by (simp add: next_word_loop_miss)
qed

lemma count_positions:
  "length (filter (\<lambda>i. xs ! i = w) [0..<length xs]) = count_list xs w"
proof (induction xs rule: rev_induct)
  case Nil
  then show ?case by simp
next
  case (snoc x xs)
  have "filter (\<lambda>i. (xs @ [x]) ! i = w) [0..<length xs]
        = filter (\<lambda>i. xs ! i = w) [0..<length xs]"
    by (intro filter_cong refl) (simp add: nth_append)
  then show ?case
    using snoc.IH by simp
qed

lemma next_word_loop_positions:
  assumes "map_of db s = Some vs"
  shows "length (filter (\<lambda>r. next_word_loop words db k s (r # rs) = Done (w, s, rs))
                  [0..<length vs]) = count_list vs w"
proof -
  have "filter (\<lambda>r. next_word_loop words db k s (r # rs) = Done (w, s, rs)) [0..<length vs]
        = filter (\<lambda>i. vs ! i = w) [0..<length vs]"
    using assms by (intro filter_cong refl) (auto simp: next_word_loop_hit choice_def)
  then show ?thesis
    by (simp add: count_positions)
qed

lemma next_word_loop_period:
  assumes "map_of db s = Some vs"
  shows "next_word_loop words db k s ((r + length vs) # rs)
         = next_word_loop words db k s (r # rs)"
  using assms by (simp add: next_word_loop_hit choice_def)

lemma markov_loop_body:
  "markov_loop words db k gensize s generated current nw draws =
     (if current < gensize then
        (case markov_body words db k s generated current draws of
           Done (s1, g1, c1, w, rs) \<Rightarrow> markov_loop words db k gensize s1 g1 c1 (Some w) rs
         | Raised e \<Rightarrow> Raised e
         | Starved \<Rightarrow> Starved)
      else Done (generated, current, nw))"
  by (simp add: markov_loop.simps[of words db k gensize s generated current nw draws]
                markov_body_def split: list.splits run.splits)

lemma random_word_offset:
  assumes "0 \<le> offset" "offset \<le> int (length words) - k"
  shows "random_word words k (nat offset # rs)
         = Done (py_slice words offset (offset + k - 1), rs)"
proof -
  have "nat offset < nat (int (length words) - k + 1)"
    using assms by linarith
  then have "nat offset mod nat (int (length words) - k + 1) = nat offset"
    by simp
  then show ?thesis
    using assms by (simp add: random_word_def randint_def)
qed

lemma random_word_period:
  "random_word words k ((d + nat (int (length words) - k + 1)) # rs)
   = random_word words k (d # rs)"
  by (simp add: random_word_def randint_def)

lemma markov_body_iff:
  "markov_body words db k s generated current draws = Done (s1, g1, c1, w, rs')
   \<longleftrightarrow> (\<exists>s0 rest sw. s = s0 # rest
          \<and> next_word_loop words db k s draws = Done (w, sw, rs')
          \<and> s1 = tl sw @ [w] \<and> g1 = generated @ [s0]
          \<and> c1 = (if ends_nl w then current + 1 else current))"
  by (cases s) (auto simp: markov_body_def split: run.splits)

lemma py_slice_single:
  assumes "0 \<le> seed" "seed \<le> int (length xs) - 2"
  shows "\<exists>z. py_slice xs seed (seed + 2 - 1) = [z]"
proof -
  have lt: "nat seed < length xs"
    using assms by linarith
  have "py_slice xs (int (nat seed)) (int (nat seed) + 1) = take (nat 1) (drop (nat seed) xs)"
    using lt by (intro py_slice_window) simp_all
  moreover have "take (nat 1) (drop (nat seed) xs) = [xs ! nat seed]"
    using lt by (simp add: take_Suc_conv_app_nth)
  ultimately have "py_slice xs seed (seed + 1) = [xs ! nat seed]"
    using assms(1) by simp
  moreover have "seed + 2 - 1 = seed + 1"
    by simp
  ultimately show ?thesis
    by (intro exI[of _ "xs ! nat seed"]) (simp only:)
qed

lemma markov_loop_order2:
  assumes "markov_loop words db 2 gensize [x] generated current nw draws = Done (g', c', nw')"
    and "current < gensize"
  shows "\<exists>y ext. nw' = Some y \<and> g' = generated @ x # ext
           \<and> int (length (filter ends_nl (g' @ [y])))
               = int (length (filter ends_nl (generated @ [x]))) + (gensize - current)"
  using assms
proof (induction "length draws" arbitrary: draws x generated current nw rule: less_induct)
  case less
  note run = less.prems(1) and lt = less.prems(2)
  obtain w s' rs where nx: "next_word_loop words db 2 [x] draws = Done (w, s', rs)"
    using run lt
    by (auto simp: markov_loop.simps[of words db 2 gensize "[x]" generated current nw draws]
             split: run.splits)
  have "s' = [x] \<or> (\<exists>seed. 0 \<le> seed \<and> seed \<le> int (length words) - 2
                        \<and> s' = py_slice words seed (seed + 2 - 1))"
    using next_word_loop_found[OF nx] by blast
  then obtain z where s': "s' = [z]"
    using py_slice_single[of _ words] by blast
  let ?c = "if ends_nl w then current + 1 else current"
  have rec: "markov_loop words db 2 gensize [w] (generated @ [x]) ?c (Some w) rs
             = Done (g', c', nw')"
    using run markov_loop_step[OF lt nx] s' by simp
  show ?case
  proof (cases "?c < gensize")
    case True
    have "length rs < length draws"
      using nx by (rule next_word_loop_draws)
    from less.hyps[OF this rec True] obtain y ext where
      ih: "nw' = Some y" "g' = (generated @ [x]) @ w # ext"
          "int (length (filter ends_nl (g' @ [y])))
           = int (length (filter ends_nl ((generated @ [x]) @ [w]))) + (gensize - ?c)"
      by blast
    have "int (length (filter ends_nl (g' @ [y])))
          = int (length (filter ends_nl (generated @ [x]))) + (gensize - current)"
      using ih(3) by (cases "ends_nl w") simp_all
    then show ?thesis
      using ih(1,2) by simp
  next
    case False
    then have fin: "g' = generated @ [x]" "nw' = Some w"
      using rec
      by (simp_all add: markov_loop.simps[of words db 2 gensize "[w]" "generated @ [x]" ?c "Some w" rs])
    have e: "ends_nl w" and c: "gensize = current + 1"
      using False lt by (auto split: if_splits)
    show ?thesis
      using fin e c by simp
  qed
qed

lemma do_markov_order2_lines:
  assumes "1 \<le> gensize"
    and "do_markov_tokens words db 2 gensize draws = Done (generated, current)"
  shows "int (length (filter ends_nl generated))
         = gensize + (if ends_nl (hd generated) then 1 else 0)"
proof -
  from assms(2) obtain s rs g nw where
    rw: "random_word words 2 draws = Done (s, rs)" and
    ml: "markov_loop words db 2 gensize s [] 0 None rs = Done (g, current, nw)"
    by (auto simp: do_markov_tokens_def split: run.splits option.splits)
  obtain x where s: "s = [x]"
    using random_word_window[OF rw] py_slice_single[of _ words] by blast
  have "0 < gensize" using assms(1) by simp
  from markov_loop_order2[OF ml[unfolded s] this] obtain y ext where
    r: "nw = Some y" "g = [] @ x # ext"
       "int (length (filter ends_nl (g @ [y])))
        = int (length (filter ends_nl ([] @ [x]))) + (gensize - 0)"
    by blast
  have g: "generated = g @ [y]"
    using assms(2) rw ml r(1) by (simp add: do_markov_tokens_def)
  have "hd generated = x"
    using g r(2) by simp
  then show ?thesis
    using r(3) g by simp
qed

lemma do_markov_line_counter:
  assumes "1 \<le> gensize"
    and "do_markov_tokens words db chain_length gensize draws = Done (generated, current)"
  shows "current = gensize \<and> generated \<noteq> [] \<and> ends_nl (last generated)
         \<and> 1 \<le> length (filter ends_nl generated)
         \<and> do_markov words db chain_length gensize draws = Done (join generated)"
proof -
  from assms(2) obtain s rs g nw where
    rw: "random_word words chain_length draws = Done (s, rs)" and
    ml: "markov_loop words db chain_length gensize s [] 0 None rs = Done (g, current, nw)"
    by (auto simp: do_markov_tokens_def split: run.splits option.splits)
  have "current = gensize \<and> (\<exists>w. nw = Some w \<and> ends_nl w)"
    using markov_loop_exit[OF ml] assms(1) by simp
  then obtain w where c: "current = gensize" and nw: "nw = Some w" and e: "ends_nl w"
    by blast
  have g: "generated = g @ [w]"
    using assms(2) rw ml nw by (simp add: do_markov_tokens_def)
  have "filter ends_nl generated \<noteq> []"
    using g e by simp
  then have "1 \<le> length (filter ends_nl generated)"
    by (simp add: Suc_le_eq)
  then show ?thesis
    using c g e assms(2) by (simp add: do_markov_def)
qed

text \<open>
  C7. One generation step (\<open>markov_body\<close>) and its lookup loop (\<open>next_word_loop\<close>).

  The lookup loop ends with word \<open>w\<close> at window \<open>s'\<close> exactly when the draws it used are
  some draws \<open>misses\<close>, one per failed lookup, followed by one draw \<open>r\<close>: the window it
  began with and every window but the last one taken on a miss are absent from the
  model, each miss replaced the window by the one \<open>random_word\<close> gives on that draw
  (\<open>random_word\<close> is what \<open>do_markov\<close> calls for its initial window), the last window
  \<open>s'\<close> is a key, and \<open>w\<close> is the entry of its successor list at position
  \<open>r mod len\<close>.

  The choice is uniform over the positions of the list: of the draws \<open>0 .. len - 1\<close>
  exactly as many give \<open>w\<close> as \<open>w\<close> occurs in the list, and the choice has period
  \<open>len\<close> in the draw. The start window is uniform over the valid offsets in the same
  sense: the draw \<open>offset\<close> gives the window at \<open>offset\<close> for every offset of
  \<open>0 .. len(words) - chain_length\<close>, with period \<open>len(words) - chain_length + 1\<close>.

  The step returns exactly when the window is not empty and the lookup loop returns;
  it appends to \<open>generated\<close> the head of the window it began with, once, however many
  lookups failed; it slides the window the lookup ended with (drops its first token,
  appends the word) and counts the word when it ends with the marker. The loop
  \<open>markov_loop\<close> is this step, repeated while the counter is below the target.
\<close>

theorem generation_step:
  "(next_word_loop words db k s draws = Done (w, s', rs')
      \<longleftrightarrow> (\<exists>misses wins r vs.
             draws = misses @ r # rs'
             \<and> list_all2 (\<lambda>d win. random_word words k [d] = Done (win, [])) misses wins
             \<and> (\<forall>x \<in> set (butlast (s # wins)). map_of db x = None)
             \<and> s' = last (s # wins)
             \<and> map_of db s' = Some vs \<and> vs \<noteq> [] \<and> w = vs ! (r mod length vs)))
   \<and> (map_of db s = Some succs \<longrightarrow>
        length (filter (\<lambda>r. next_word_loop words db k s (r # rs) = Done (w, s, rs))
                  [0..<length succs]) = count_list succs w
        \<and> next_word_loop words db k s ((d + length succs) # rs)
            = next_word_loop words db k s (d # rs))
   \<and> (0 \<le> offset \<and> offset \<le> int (length words) - k \<longrightarrow>
        random_word words k (nat offset # rs)
          = Done (py_slice words offset (offset + k - 1), rs))
   \<and> random_word words k ((d + nat (int (length words) - k + 1)) # rs)
       = random_word words k (d # rs)
   \<and> (markov_body words db k s generated current draws = Done (s1, g1, c1, w, rs')
      \<longleftrightarrow> (\<exists>s0 rest sw. s = s0 # rest
             \<and> next_word_loop words db k s draws = Done (w, sw, rs')
             \<and> s1 = tl sw @ [w] \<and> g1 = generated @ [s0]
             \<and> c1 = (if ends_nl w then current + 1 else current)))
   \<and> markov_loop words db k gensize s generated current nw draws =
       (if current < gensize then
          (case markov_body words db k s generated current draws of
             Done (s2, g2, c2, w2, rs2) \<Rightarrow>
               markov_loop words db k gensize s2 g2 c2 (Some w2) rs2
           | Raised e \<Rightarrow> Raised e
           | Starved \<Rightarrow> Starved)
        else Done (generated, current, nw))"
proof -
  have a: "next_word_loop words db k s draws = Done (w, s', rs')
      \<longleftrightarrow> (\<exists>misses wins r vs.
             draws = misses @ r # rs'
             \<and> list_all2 (\<lambda>d win. random_word words k [d] = Done (win, [])) misses wins
             \<and> (\<forall>x \<in> set (butlast (s # wins)). map_of db x = None)
             \<and> s' = last (s # wins)
             \<and> map_of db s' = Some vs \<and> vs \<noteq> [] \<and> w = vs ! (r mod length vs))"
    (is "?L \<longleftrightarrow> ?R")
  proof
    assume ?L
    then show ?R by (rule next_word_loop_trace)
  next
    assume ?R
    then obtain misses wins r vs where
      h: "draws = misses @ r # rs'"
         "list_all2 (\<lambda>d win. random_word words k [d] = Done (win, [])) misses wins"
         "\<forall>x \<in> set (butlast (s # wins)). map_of db x = None"
         "s' = last (s # wins)"
         "map_of db s' = Some vs" "vs \<noteq> []" "w = vs ! (r mod length vs)"
      by blast
    show ?L
      using next_word_loop_replay[OF h(2) h(3) h(5)[unfolded h(4)] h(6), of r rs'] h(1,4,7)
      by simp
  qed
  have b: "map_of db s = Some succs \<longrightarrow>
        length (filter (\<lambda>r. next_word_loop words db k s (r # rs) = Done (w, s, rs))
                  [0..<length succs]) = count_list succs w
        \<and> next_word_loop words db k s ((d + length succs) # rs)
            = next_word_loop words db k s (d # rs)"
    using next_word_loop_positions[of db s succs words k rs w]
      next_word_loop_period[of db s succs words k d rs] by blast
  have c: "0 \<le> offset \<and> offset \<le> int (length words) - k \<longrightarrow>
        random_word words k (nat offset # rs)
          = Done (py_slice words offset (offset + k - 1), rs)"
    using random_word_offset[of offset words k rs] by blast
  show ?thesis
    using a b c random_word_period[of words k d rs]
      markov_body_iff[of words db k s generated current draws s1 g1 c1 w rs']
      markov_loop_body[of words db k gensize s generated current nw draws]
    by blast
qed

theorem generation_step_witness:
  "next_word_loop [''the'', ''cat'', ''sat\<newline>'', ''the'', ''dog'', ''ran\<newline>'']
     [([''the'', ''cat''], [''sat\<newline>'']), ([''cat'', ''sat\<newline>''], [''the'']),
      ([''sat\<newline>'', ''the''], [''dog'']), ([''the'', ''dog''], [''ran\<newline>''])] 3
     [''dog'', ''ran\<newline>''] [2, 0, 9]
   = Done (''dog'', [''sat\<newline>'', ''the''], [9])
   \<and> markov_body [''the'', ''cat'', ''sat\<newline>'', ''the'', ''dog'', ''ran\<newline>'']
     [([''the'', ''cat''], [''sat\<newline>'']), ([''cat'', ''sat\<newline>''], [''the'']),
      ([''sat\<newline>'', ''the''], [''dog'']), ([''the'', ''dog''], [''ran\<newline>''])] 3
     [''dog'', ''ran\<newline>''] [''the''] 0 [2, 0, 9]
   = Done ([''the'', ''dog''], [''the'', ''dog''], 0, ''dog'', [9])
   \<and> length (filter (\<lambda>r. next_word_loop [''the'', ''cat'', ''the'', ''dog'', ''the'', ''cat'']
                              [([''the''], [''cat'', ''dog'', ''cat'']), ([''cat''], [''the'']),
                               ([''dog''], [''the''])] 2 [''the''] [r, 9]
                            = Done (''cat'', [''the''], [9])) [0..<3]) = 2
   \<and> random_word [''the'', ''cat'', ''sat\<newline>'', ''the'', ''dog'', ''ran\<newline>''] 3 [2, 0, 9]
     = Done ([''sat\<newline>'', ''the''], [0, 9])"
proof -
  let ?ws = "[''the'', ''cat'', ''sat\<newline>'', ''the'', ''dog'', ''ran\<newline>'']"
  let ?db = "[([''the'', ''cat''], [''sat\<newline>'']), ([''cat'', ''sat\<newline>''], [''the'']),
      ([''sat\<newline>'', ''the''], [''dog'']), ([''the'', ''dog''], [''ran\<newline>''])]"
  let ?ws2 = "[''the'', ''cat'', ''the'', ''dog'', ''the'', ''cat'']"
  let ?db2 = "[([''the''], [''cat'', ''dog'', ''cat'']), ([''cat''], [''the'']),
               ([''dog''], [''the''])]"
  have rw: "random_word ?ws 3 [2] = Done ([''sat\<newline>'', ''the''], [])"
    by code_simp
  have tr: "\<exists>misses wins r vs.
             [2, 0, 9] = misses @ r # [9]
             \<and> list_all2 (\<lambda>d win. random_word ?ws 3 [d] = Done (win, [])) misses wins
             \<and> (\<forall>x \<in> set (butlast ([''dog'', ''ran\<newline>''] # wins)). map_of ?db x = None)
             \<and> [''sat\<newline>'', ''the''] = last ([''dog'', ''ran\<newline>''] # wins)
             \<and> map_of ?db [''sat\<newline>'', ''the''] = Some vs \<and> vs \<noteq> []
             \<and> ''dog'' = vs ! (r mod length vs)"
    by (rule exI[of _ "[2]"], rule exI[of _ "[[''sat\<newline>'', ''the'']]"],
        rule exI[of _ 0], rule exI[of _ "[''dog'']"]) (simp add: rw)
  have c1: "next_word_loop ?ws ?db 3 [''dog'', ''ran\<newline>''] [2, 0, 9]
            = Done (''dog'', [''sat\<newline>'', ''the''], [9])"
    by (rule generation_step[where words = ?ws and db = ?db and k = 3
          and s = "[''dog'', ''ran\<newline>'']" and draws = "[2, 0, 9]" and w = "''dog''"
          and s' = "[''sat\<newline>'', ''the'']" and rs' = "[9]",
          THEN conjunct1, THEN iffD2]) (rule tr)
  have nd: "\<not> ends_nl ''dog''"
    by code_simp
  have st: "\<exists>s0 rest sw. [''dog'', ''ran\<newline>''] = s0 # rest
          \<and> next_word_loop ?ws ?db 3 [''dog'', ''ran\<newline>''] [2, 0, 9] = Done (''dog'', sw, [9])
          \<and> [''the'', ''dog''] = tl sw @ [''dog''] \<and> [''the'', ''dog''] = [''the''] @ [s0]
          \<and> (0::int) = (if ends_nl ''dog'' then 0 + 1 else 0)"
    by (rule exI[of _ "''dog''"], rule exI[of _ "[''ran\<newline>'']"],
        rule exI[of _ "[''sat\<newline>'', ''the'']"]) (simp add: c1 nd)
  have c2: "markov_body ?ws ?db 3 [''dog'', ''ran\<newline>''] [''the''] 0 [2, 0, 9]
            = Done ([''the'', ''dog''], [''the'', ''dog''], 0, ''dog'', [9])"
    by (rule generation_step[where words = ?ws and db = ?db and k = 3
          and s = "[''dog'', ''ran\<newline>'']" and draws = "[2, 0, 9]" and w = "''dog''"
          and rs' = "[9]" and generated = "[''the'']" and current = 0
          and ?s1.0 = "[''the'', ''dog'']" and ?g1.0 = "[''the'', ''dog'']" and ?c1.0 = 0,
          THEN conjunct2, THEN conjunct2, THEN conjunct2, THEN conjunct2,
          THEN conjunct1, THEN iffD2]) (rule st)
  have hit: "map_of ?db2 [''the''] = Some [''cat'', ''dog'', ''cat'']"
    by simp
  have len: "length [''cat'', ''dog'', ''cat''] = 3"
    by simp
  have cnt: "count_list [''cat'', ''dog'', ''cat''] ''cat'' = 2"
    by simp
  have c3: "length (filter (\<lambda>r. next_word_loop ?ws2 ?db2 2 [''the''] [r, 9]
                            = Done (''cat'', [''the''], [9])) [0..<3]) = 2"
    using generation_step[where words = ?ws2 and db = ?db2 and k = 2
        and s = "[''the'']" and succs = "[''cat'', ''dog'', ''cat'']" and w = "''cat''"
        and rs = "[9]", THEN conjunct2, THEN conjunct1, THEN mp, OF hit, THEN conjunct1]
    unfolding len cnt .
  have off: "(0::int) \<le> 2 \<and> 2 \<le> int (length ?ws) - 3"
    by simp
  have sl: "py_slice ?ws 2 (2 + 3 - 1) = [''sat\<newline>'', ''the'']"
    by code_simp
  have n2: "nat 2 = (2::nat)"
    by simp
  have c4: "random_word ?ws 3 [2, 0, 9] = Done ([''sat\<newline>'', ''the''], [0, 9])"
    using generation_step[where words = ?ws and k = 3 and offset = 2 and rs = "[0, 9]",
        THEN conjunct2, THEN conjunct2, THEN conjunct1, THEN mp, OF off]
    unfolding sl n2 .
  show ?thesis
    using c1 c2 c3 c4 by blast
qed

text \<open>
  C1. The docstring of \<open>do_markov\<close> calls \<open>size\<close> the number of lines to generate, and
  the loop stops when its counter of marker-ending successors reaches \<open>size\<close>
  (\<open>do_markov_line_counter\<close>). The output does not have that many marker-ending tokens:
  the head of the start window is emitted without being counted. With order 2 the
  output has \<open>size + 1\<close> of them whenever the start token ends a corpus line
  (\<open>do_markov_order2_lines\<close>); on the tokens of \<open>the cat sat\<close>, \<open>the dog ran\<close> with
  order 2, \<open>size = 1\<close> and start window \<open>(sat)\<close> with the marker, the output has two.
\<close>

theorem line_count_exceeds_target:
  "create_database [''the'', ''cat'', ''sat\<newline>'', ''the'', ''dog'', ''ran\<newline>''] 2
     = Inr [([''the''], [''cat'', ''dog'']), ([''cat''], [''sat\<newline>'']),
            ([''sat\<newline>''], [''the'']), ([''dog''], [''ran\<newline>''])]
   \<and> do_markov [''the'', ''cat'', ''sat\<newline>'', ''the'', ''dog'', ''ran\<newline>'']
        [([''the''], [''cat'', ''dog'']), ([''cat''], [''sat\<newline>'']),
         ([''sat\<newline>''], [''the'']), ([''dog''], [''ran\<newline>''])] 2 1 [2, 0, 0, 0]
     = Done (join [''sat\<newline>'', ''the'', ''cat'', ''sat\<newline>''])
   \<and> length (filter ends_nl [''sat\<newline>'', ''the'', ''cat'', ''sat\<newline>'']) = 2"
  by code_simp

text \<open>
  C2. On the corpus lines \<open>the cat sat\<close>, \<open>the dog ran\<close> with order 3 the tokenizer and
  \<open>create_database\<close> give the six tokens and the four keys listed; \<open>do_markov\<close> with
  \<open>target_lines = 1\<close> and start window \<open>(the, cat)\<close> returns \<open>the sat\<close> with the marker:
  the token \<open>cat\<close>, still in the window when the loop ends, is never appended.
\<close>

theorem spec_example_output:
  "read_file [''the cat sat\<newline>'', ''the dog ran\<newline>'']
     = [''the'', ''cat'', ''sat\<newline>'', ''the'', ''dog'', ''ran\<newline>'']
   \<and> create_database [''the'', ''cat'', ''sat\<newline>'', ''the'', ''dog'', ''ran\<newline>''] 3
     = Inr [([''the'', ''cat''], [''sat\<newline>'']), ([''cat'', ''sat\<newline>''], [''the'']),
            ([''sat\<newline>'', ''the''], [''dog'']), ([''the'', ''dog''], [''ran\<newline>''])]
   \<and> random_word [''the'', ''cat'', ''sat\<newline>'', ''the'', ''dog'', ''ran\<newline>''] 3 [0, 0]
     = Done ([''the'', ''cat''], [0])
   \<and> do_markov [''the'', ''cat'', ''sat\<newline>'', ''the'', ''dog'', ''ran\<newline>'']
        [([''the'', ''cat''], [''sat\<newline>'']), ([''cat'', ''sat\<newline>''], [''the'']),
         ([''sat\<newline>'', ''the''], [''dog'']), ([''the'', ''dog''], [''ran\<newline>''])] 3 1 [0, 0]
     = Done ''the sat\<newline>''"
  by code_simp

text \<open>
  C4. With \<open>target_lines = 0\<close> the loop body runs zero times (nothing is generated, no
  draw is used, \<open>next_word\<close> stays unbound), and the append after the loop raises
  \<open>UnboundLocalError\<close>: no string is returned.
\<close>

theorem zero_lines_unbound:
  "markov_loop [''the'', ''cat'', ''sat\<newline>'', ''the'', ''dog'', ''ran\<newline>'']
        [([''the'', ''cat''], [''sat\<newline>'']), ([''cat'', ''sat\<newline>''], [''the'']),
         ([''sat\<newline>'', ''the''], [''dog'']), ([''the'', ''dog''], [''ran\<newline>''])] 3 0
        [''the'', ''cat''] [] 0 None [0]
     = Done ([], 0, None)
   \<and> do_markov [''the'', ''cat'', ''sat\<newline>'', ''the'', ''dog'', ''ran\<newline>'']
        [([''the'', ''cat''], [''sat\<newline>'']), ([''cat'', ''sat\<newline>''], [''the'']),
         ([''sat\<newline>'', ''the''], [''dog'']), ([''the'', ''dog''], [''ran\<newline>''])] 3 0 [0, 0]
     = Raised UnboundLocalError"
  by code_simp

text \<open>
  C5, amended. For every token sequence shorter than the chain order,
  \<open>create_database\<close> does not fail: it returns the empty model, on which \<open>db_stats\<close>
  raises \<open>ZeroDivisionError\<close>; and \<open>do_markov\<close>, with any model, target and draws, fails
  at once with the \<open>ValueError\<close> of \<open>random.randint\<close> on an empty range, before its
  loop. The code has no \<open>EmptyCorpusError\<close>.
\<close>

theorem short_corpus_behaviour:
  "int (length words) < chain_length \<Longrightarrow>
   create_database words chain_length = Inr []
   \<and> db_stats [] = Inl ZeroDivisionError
   \<and> do_markov words db chain_length gensize draws = Raised ValueError"
  by (simp add: create_database_def generate_chain_short do_markov_short db_stats_def)

theorem short_corpus_behaviour_witness:
  "int (length [''solo'']) < 3
   \<and> create_database [''solo''] 3 = Inr []
   \<and> db_stats [] = Inl ZeroDivisionError
   \<and> do_markov [''solo''] [] 3 13 [5, 1, 4] = Raised ValueError"
  using short_corpus_behaviour[of "[''solo'']" 3 "[]" 13 "[5, 1, 4]"] by simp

text \<open>
  C5 as stated fails: on two tokens with order 3 the model is built, empty, and
  generation raises \<open>ValueError\<close>.
\<close>

theorem short_corpus_counterexample:
  "create_database [''the'', ''cat\<newline>''] 3 = Inr []
   \<and> do_markov [''the'', ''cat\<newline>''] [] 3 1 [0] = Raised ValueError"
  by code_simp

section \<open>Properties of the statistics\<close>

text \<open>
  C3. On the model of the tokens \<open>a a a b a\<close> with order 2 (branching factors 3 and 1,
  mean 2, sum of squared deviations 2) the value \<open>db_stats\<close> prints as the standard
  deviation is the square root of 2, the root of the undivided sum; the population
  standard deviation is 1.
\<close>

theorem printed_deviation_undivided:
  "create_database [''a'', ''a'', ''a'', ''b'', ''a''] 2
     = Inr [([''a''], [''a'', ''a'', ''b'']), ([''b''], [''a''])]
   \<and> map_sum id standard_deviation (db_stats [([''a''], [''a'', ''a'', ''b'']), ([''b''], [''a''])])
     = Inr (sqrt 2)
   \<and> map_sum id population_std (db_stats [([''a''], [''a'', ''a'', ''b'']), ([''b''], [''a''])])
     = Inr 1"
proof -
  have "create_database [''a'', ''a'', ''a'', ''b'', ''a''] 2
     = Inr [([''a''], [''a'', ''a'', ''b'']), ([''b''], [''a''])]"
    by code_simp
  then show ?thesis
    by (simp add: db_stats_def population_std_def sys_maxint_def)
qed

end
